theory Spec2Isabelle
  imports Main "HOL-Library.Finite_Map"
begin

section \<open>Python values\<close>

text \<open>
  A Python \<open>str\<close> is a sequence of Unicode code points, and \<open>len\<close> counts code points.
  A code point is a natural number; \<open>ascii\<close> turns a literal into the \<open>str\<close> of its
  code points.
\<close>

type_synonym codepoint = nat
type_synonym str = "codepoint list"

definition ascii :: "string \<Rightarrow> str" where
  "ascii s = map of_char s"

section \<open>models.py: URLStore\<close>

text \<open>
  \<open>url_data\<close> is the dict built by \<open>add_url\<close>: the keys \<open>'url'\<close>, \<open>'clicks'\<close>,
  \<open>'created_at'\<close> and \<open>'last_accessed'\<close> (\<open>None\<close> until the first visit).
  \<open>self._urls\<close> is a dict from short code to \<open>url_data\<close>: a finite map.
  Every method runs under \<open>self._lock\<close>, so each call is one atomic step on the map;
  a method takes the map and returns its result with the map it leaves.
  \<open>datetime.now(timezone.utc).isoformat()\<close> reads the clock: the reading is the
  parameter \<open>now\<close>. Calls of \<open>logger\<close> do not touch the map and are left out.
\<close>

record url_data =
  url :: str
  clicks :: int
  created_at :: str
  last_accessed :: "str option"

type_synonym urls = "(str, url_data) fmap"

definition add_url :: "str \<Rightarrow> str \<Rightarrow> str \<Rightarrow> urls \<Rightarrow> bool \<times> urls" where
  "add_url now short_code original_url st =
     (if short_code |\<in>| fmdom st then (False, st)
      else (True,
            fmupd short_code
              \<lparr>url = original_url, clicks = 0, created_at = now, last_accessed = None\<rparr> st))"

definition get_url :: "str \<Rightarrow> urls \<Rightarrow> str option \<times> urls" where
  "get_url short_code st =
     (case fmlookup st short_code of
        Some d \<Rightarrow> (Some (url d), st)
      | None \<Rightarrow> (None, st))"

definition increment_clicks :: "str \<Rightarrow> str \<Rightarrow> urls \<Rightarrow> bool \<times> urls" where
  "increment_clicks now short_code st =
     (case fmlookup st short_code of
        None \<Rightarrow> (False, st)
      | Some d \<Rightarrow>
          (True, fmupd short_code (d\<lparr>clicks := clicks d + 1, last_accessed := Some now\<rparr>) st))"

definition get_stats :: "str \<Rightarrow> urls \<Rightarrow> url_data option \<times> urls" where
  "get_stats short_code st =
     (case fmlookup st short_code of
        Some d \<Rightarrow>
          (Some \<lparr>url = url d, clicks = clicks d, created_at = created_at d,
                 last_accessed = last_accessed d\<rparr>, st)
      | None \<Rightarrow> (None, st))"

definition get_existing_codes :: "urls \<Rightarrow> str fset \<times> urls" where
  "get_existing_codes st = (fmdom st, st)"

definition get_total_urls :: "urls \<Rightarrow> nat \<times> urls" where
  "get_total_urls st = (fcard (fmdom st), st)"

text \<open>
  The calls a client of the store can make, each with the clock reading at the call,
  and the map after a call and after a sequence of calls.
\<close>

datatype store_op =
    AddUrl str str
  | GetUrl str
  | IncrementClicks str
  | GetStats str
  | GetExistingCodes
  | GetTotalUrls

fun step :: "str \<times> store_op \<Rightarrow> urls \<Rightarrow> urls" where
  "step (now, AddUrl c u) st = snd (add_url now c u st)"
| "step (now, GetUrl c) st = snd (get_url c st)"
| "step (now, IncrementClicks c) st = snd (increment_clicks now c st)"
| "step (now, GetStats c) st = snd (get_stats c st)"
| "step (now, GetExistingCodes) st = snd (get_existing_codes st)"
| "step (now, GetTotalUrls) st = snd (get_total_urls st)"

fun run :: "(str \<times> store_op) list \<Rightarrow> urls \<Rightarrow> urls" where
  "run [] st = st"
| "run (x # xs) st = run xs (step x st)"

text \<open>The number of \<open>increment_clicks(c)\<close> calls in a sequence of calls.\<close>

fun visits :: "str \<Rightarrow> (str \<times> store_op) list \<Rightarrow> int" where
  "visits c [] = 0"
| "visits c ((now, IncrementClicks c') # xs) = (if c' = c then 1 else 0) + visits c xs"
| "visits c (x # xs) = visits c xs"

section \<open>utils.py: generate_short_code\<close>

text \<open>
  The two ways the generator can fail: the \<open>Exception("Unable to generate unique short
  code")\<close> raised after the last attempt, and the \<open>IndexError\<close> that \<open>random.choice\<close>
  raises on an empty sequence.
\<close>

datatype error = GenerationExhausted | IndexError

text \<open>\<open>string.ascii_letters\<close> and \<open>string.digits\<close> of Python's standard library.\<close>

definition ascii_letters :: str where
  "ascii_letters = ascii ''abcdefghijklmnopqrstuvwxyzABCDEFGHIJKLMNOPQRSTUVWXYZ''"

definition digits :: str where
  "digits = ascii ''0123456789''"

text \<open>\<open>safe_chars = ''.join(c for c in chars if c not in '0Ol1I')\<close>.\<close>

definition safe_chars :: str where
  "safe_chars = filter (\<lambda>c. c \<notin> set (ascii ''0Ol1I'')) (ascii_letters @ digits)"

definition max_attempts :: nat where
  "max_attempts = 100"

text \<open>
  The random source is the sequence \<open>r\<close> of numbers it will produce; the state of the
  generator is the number \<open>p\<close> of draws made so far. \<open>random.choice(seq)\<close> returns
  \<open>seq[i]\<close> for an index \<open>i\<close> below \<open>len(seq)\<close> and makes one draw.
\<close>

type_synonym rng = "nat \<Rightarrow> nat"

definition random_choice :: "'a list \<Rightarrow> rng \<Rightarrow> nat \<Rightarrow> error + ('a \<times> nat)" where
  "random_choice seq r p =
     (if seq = [] then Inl IndexError else Inr (seq ! (r p mod length seq), Suc p))"

text \<open>\<open>''.join(random.choice(safe_chars) for _ in range(length))\<close>, for \<open>n\<close> rounds.\<close>

fun draw_code :: "nat \<Rightarrow> rng \<Rightarrow> nat \<Rightarrow> error + (str \<times> nat)" where
  "draw_code 0 r p = Inr ([], p)"
| "draw_code (Suc n) r p =
     (case random_choice safe_chars r p of
        Inl e \<Rightarrow> Inl e
      | Inr (c, p1) \<Rightarrow>
          (case draw_code n r p1 of
             Inl e \<Rightarrow> Inl e
           | Inr (cs, p2) \<Rightarrow> Inr (c # cs, p2)))"

text \<open>
  The \<open>while attempt < max_attempts\<close> loop. \<open>range(length)\<close> of an integer has
  \<open>nat length\<close> elements (none for a negative \<open>length\<close>). The result is the code with
  the state of the random source after the call.
\<close>

function attempt_loop :: "int \<Rightarrow> str set \<Rightarrow> rng \<Rightarrow> nat \<Rightarrow> nat \<Rightarrow> error + (str \<times> nat)" where
  "attempt_loop len existing_codes r attempt p =
     (if attempt < max_attempts then
        (case draw_code (nat len) r p of
           Inl e \<Rightarrow> Inl e
         | Inr (code, p1) \<Rightarrow>
             if code \<notin> existing_codes then Inr (code, p1)
             else attempt_loop len existing_codes r (attempt + 1) p1)
      else Inl GenerationExhausted)"
  by pat_completeness auto
termination
  by (relation "measure (\<lambda>(len, ex, r, attempt, p). max_attempts - attempt)") auto

declare attempt_loop.simps [simp del]

text \<open>\<open>if existing_codes is None: existing_codes = set()\<close>.\<close>

definition avoid :: "str set option \<Rightarrow> str set" where
  "avoid existing_codes = (case existing_codes of None \<Rightarrow> {} | Some s \<Rightarrow> s)"

definition generate_short_code :: "int \<Rightarrow> str set option \<Rightarrow> rng \<Rightarrow> nat \<Rightarrow> error + (str \<times> nat)" where
  "generate_short_code len existing_codes r p =
     attempt_loop len (avoid existing_codes) r 0 p"

text \<open>
  For the statements: \<open>drawn r p n\<close> is the string that \<open>n\<close> draws from state \<open>p\<close>
  select, and \<open>candidate len r p k\<close> is the code of attempt \<open>k\<close> (counted from 0) of a
  call that starts in state \<open>p\<close>.
\<close>

definition drawn :: "rng \<Rightarrow> nat \<Rightarrow> nat \<Rightarrow> str" where
  "drawn r p n = map (\<lambda>i. safe_chars ! (r (p + i) mod length safe_chars)) [0..<n]"

definition candidate :: "int \<Rightarrow> rng \<Rightarrow> nat \<Rightarrow> nat \<Rightarrow> str" where
  "candidate len r p k = drawn r (p + k * nat len) (nat len)"

section \<open>utils.py: the validators\<close>

text \<open>
  \<open>validate_url\<close> is called on a value taken from a decoded JSON body, which need not
  be a string; \<open>pyval\<close> has the values \<open>isinstance(_, str)\<close> has to tell apart.
\<close>

datatype pyval =
    PNone
  | PBool bool
  | PInt int
  | PStr str
  | PList "pyval list"
  | PDict "(str \<times> pyval) list"

text \<open>
  The validators rest on Python's \<open>re\<close>, \<open>urllib.parse\<close> and \<open>str.isalnum\<close>, which
  are not part of the repository. On the ASCII code points (below 128) what they do is
  written out below. On the other code points they consult the Unicode character
  database; what it answers is a parameter, \<open>unicode\<close>:
  \<^item> \<open>uc_digit c\<close>: \<open>\d\<close> matches \<open>c\<close>;
  \<^item> \<open>uc_space c\<close>: \<open>\s\<close> matches \<open>c\<close>;
  \<^item> \<open>uc_caseless c a\<close>: under \<open>re.IGNORECASE\<close>, \<open>c\<close> matches the ASCII lower-case
    letter \<open>a\<close>;
  \<^item> \<open>uc_alnum c\<close>: \<open>str.isalnum\<close> holds of \<open>c\<close>;
  \<^item> \<open>uc_netloc_ok n\<close>: \<open>urlsplit\<close>'s NFKC check lets the non-ASCII netloc \<open>n\<close> pass;
  \<^item> \<open>uc_bracketed_ok n\<close>: \<open>urlsplit\<close>'s check of a bracketed host lets \<open>n\<close> pass.
\<close>

record unicode =
  uc_digit :: "codepoint \<Rightarrow> bool"
  uc_space :: "codepoint \<Rightarrow> bool"
  uc_caseless :: "codepoint \<Rightarrow> codepoint \<Rightarrow> bool"
  uc_alnum :: "codepoint \<Rightarrow> bool"
  uc_netloc_ok :: "str \<Rightarrow> bool"
  uc_bracketed_ok :: "str \<Rightarrow> bool"

definition ascii_digit :: "codepoint \<Rightarrow> bool" where
  "ascii_digit c = (48 \<le> c \<and> c \<le> 57)"

definition ascii_upper :: "codepoint \<Rightarrow> bool" where
  "ascii_upper c = (65 \<le> c \<and> c \<le> 90)"

definition ascii_lower :: "codepoint \<Rightarrow> bool" where
  "ascii_lower c = (97 \<le> c \<and> c \<le> 122)"

text \<open>The ASCII code points with \<open>str.isspace\<close>: tab to carriage return, FS to space.\<close>

definition ascii_space :: "codepoint \<Rightarrow> bool" where
  "ascii_space c = ((9 \<le> c \<and> c \<le> 13) \<or> (28 \<le> c \<and> c \<le> 32))"

definition to_lower :: "codepoint \<Rightarrow> codepoint" where
  "to_lower c = (if ascii_upper c then c + 32 else c)"

subsection \<open>Regular expressions\<close>

text \<open>
  A pattern is the function from a string to the rests a match of the pattern can leave,
  in the order a backtracking matcher tries them: \<open>rx_one P\<close> is one character of the
  class \<open>P\<close>, \<open>rx_seq\<close> concatenation, \<open>rx_alt\<close> is \<open>|\<close>, \<open>rx_opt\<close> is \<open>?\<close>,
  \<open>rx_rep lo hi\<close> is \<open>{lo,hi}\<close>, \<open>rx_plus\<close> is \<open>+\<close> and \<open>rx_eol\<close> is \<open>$\<close>.
  \<open>+\<close> is only applied to patterns that consume a character, so more rounds than the
  string has characters cannot match. Without \<open>re.MULTILINE\<close>, \<open>$\<close> matches at the end
  of the string and just before a line feed that ends the string.
  \<open>pattern.match(s)\<close> finds a match when the pattern, which ends with \<open>$\<close>, leaves some
  rest.
\<close>

type_synonym matcher = "str \<Rightarrow> str list"

definition rx_one :: "(codepoint \<Rightarrow> bool) \<Rightarrow> matcher" where
  "rx_one P s = (case s of [] \<Rightarrow> [] | c # cs \<Rightarrow> if P c then [cs] else [])"

definition rx_seq :: "matcher \<Rightarrow> matcher \<Rightarrow> matcher" where
  "rx_seq a b s = concat (map b (a s))"

definition rx_alt :: "matcher \<Rightarrow> matcher \<Rightarrow> matcher" where
  "rx_alt a b s = a s @ b s"

definition rx_opt :: "matcher \<Rightarrow> matcher" where
  "rx_opt a s = a s @ [s]"

fun rx_rep :: "nat \<Rightarrow> nat \<Rightarrow> matcher \<Rightarrow> matcher" where
  "rx_rep lo 0 a s = (if lo = 0 then [s] else [])"
| "rx_rep lo (Suc hi) a s =
     concat (map (rx_rep (lo - 1) hi a) (a s)) @ (if lo = 0 then [s] else [])"

definition rx_plus :: "matcher \<Rightarrow> matcher" where
  "rx_plus a s = rx_rep 1 (Suc (length s)) a s"

definition rx_eol :: matcher where
  "rx_eol s = (if s = [] \<or> s = [10] then [s] else [])"

definition re_match :: "matcher \<Rightarrow> str \<Rightarrow> bool" where
  "re_match m s = (m s \<noteq> [])"

text \<open>
  The character classes of \<open>url_pattern\<close> under \<open>re.IGNORECASE\<close>: a literal that has no
  case (\<open>lit\<close>), a lower-case letter matched without regard to case (\<open>lit_i\<close>),
  \<open>[A-Z]\<close> (\<open>letter_i\<close>), \<open>[A-Z0-9]\<close> (\<open>alnum_i\<close>), \<open>[A-Z0-9-]\<close>
  (\<open>alnum_hyphen_i\<close>), \<open>\d\<close> (\<open>re_digit\<close>) and \<open>\S\<close> (\<open>re_nonspace\<close>).
\<close>

definition lit :: "codepoint \<Rightarrow> codepoint \<Rightarrow> bool" where
  "lit a c = (c = a)"

definition lit_i :: "unicode \<Rightarrow> codepoint \<Rightarrow> codepoint \<Rightarrow> bool" where
  "lit_i uc a c = (if c < 128 then to_lower c = a else uc_caseless uc c a)"

definition letter_i :: "unicode \<Rightarrow> codepoint \<Rightarrow> bool" where
  "letter_i uc c =
     (if c < 128 then ascii_upper c \<or> ascii_lower c
      else list_ex (uc_caseless uc c) [97..<123])"

definition re_digit :: "unicode \<Rightarrow> codepoint \<Rightarrow> bool" where
  "re_digit uc c = (if c < 128 then ascii_digit c else uc_digit uc c)"

definition re_nonspace :: "unicode \<Rightarrow> codepoint \<Rightarrow> bool" where
  "re_nonspace uc c = (if c < 128 then \<not> ascii_space c else \<not> uc_space uc c)"

definition alnum_i :: "unicode \<Rightarrow> codepoint \<Rightarrow> bool" where
  "alnum_i uc c = (letter_i uc c \<or> (c < 128 \<and> ascii_digit c))"

definition alnum_hyphen_i :: "unicode \<Rightarrow> codepoint \<Rightarrow> bool" where
  "alnum_hyphen_i uc c = (alnum_i uc c \<or> c = 45)"

text \<open>A word of lower-case letters, matched without regard to case.\<close>

fun word_i :: "unicode \<Rightarrow> str \<Rightarrow> matcher" where
  "word_i uc [] = (\<lambda>s. [s])"
| "word_i uc (a # as) = rx_seq (rx_one (lit_i uc a)) (word_i uc as)"

text \<open>
  \<open>url_pattern\<close>, piece by piece:
  \<^verbatim>\<open>[A-Z0-9](?:[A-Z0-9-]{0,61}[A-Z0-9])?\.\<close> is \<open>host_label\<close>;
  \<^verbatim>\<open>(?:label)+[A-Z]{2,6}\.?\<close> is \<open>host_domain\<close>;
  \<^verbatim>\<open>\d{1,3}\.\d{1,3}\.\d{1,3}\.\d{1,3}\<close> is \<open>host_ipv4\<close>;
  and the whole is
  \<^verbatim>\<open>^https?://(?:domain|localhost|ip)(?::\d+)?(?:/?|[/?]\S+)$\<close>.
  The code points: 46 is the dot, 58 the colon, 47 the slash, 63 the question mark,
  115 the letter s.
\<close>

definition host_label :: "unicode \<Rightarrow> matcher" where
  "host_label uc =
     rx_seq (rx_one (alnum_i uc))
       (rx_seq (rx_opt (rx_seq (rx_rep 0 61 (rx_one (alnum_hyphen_i uc))) (rx_one (alnum_i uc))))
            (rx_one (lit 46)))"

definition host_domain :: "unicode \<Rightarrow> matcher" where
  "host_domain uc =
     rx_seq (rx_plus (host_label uc))
       (rx_seq (rx_rep 2 6 (rx_one (letter_i uc))) (rx_opt (rx_one (lit 46))))"

definition host_ipv4 :: "unicode \<Rightarrow> matcher" where
  "host_ipv4 uc =
     rx_seq (rx_rep 1 3 (rx_one (re_digit uc))) (rx_seq (rx_one (lit 46))
    (rx_seq (rx_rep 1 3 (rx_one (re_digit uc))) (rx_seq (rx_one (lit 46))
    (rx_seq (rx_rep 1 3 (rx_one (re_digit uc))) (rx_seq (rx_one (lit 46))
         (rx_rep 1 3 (rx_one (re_digit uc))))))))"

definition url_pattern :: "unicode \<Rightarrow> matcher" where
  "url_pattern uc =
     rx_seq (word_i uc (ascii ''http'')) (rx_seq (rx_opt (rx_one (lit_i uc 115)))
    (rx_seq (rx_one (lit 58)) (rx_seq (rx_one (lit 47)) (rx_seq (rx_one (lit 47))
    (rx_seq (rx_alt (host_domain uc) (rx_alt (word_i uc (ascii ''localhost'')) (host_ipv4 uc)))
    (rx_seq (rx_opt (rx_seq (rx_one (lit 58)) (rx_plus (rx_one (re_digit uc)))))
    (rx_seq (rx_alt (rx_opt (rx_one (lit 47)))
              (rx_seq (rx_one (\<lambda>c. c = 47 \<or> c = 63)) (rx_plus (rx_one (re_nonspace uc)))))
         rx_eol)))))))"

subsection \<open>urlparse\<close>

text \<open>
  \<open>validate_url\<close> reads \<open>scheme\<close> and \<open>netloc\<close> of \<open>urlparse(url)\<close>, which are those of
  \<open>urlsplit(url)\<close>. \<open>urlsplit\<close> strips leading code points up to the space, removes every
  tab, carriage return and line feed, and splits off a scheme: the part before the first
  colon, when it starts with an ASCII letter and has only ASCII letters, digits, \<open>+\<close>,
  \<open>-\<close> and \<open>.\<close>; the scheme is lower-cased. When \<open>//\<close> follows, the netloc runs up to
  the first \<open>/\<close>, \<open>?\<close> or \<open>#\<close>. \<open>urlsplit\<close> raises \<open>ValueError\<close> (here \<open>None\<close>) for
  a netloc with one square bracket but not the other, for a bracketed host that is no IP
  literal, and for a non-ASCII netloc that fails the NFKC check.
\<close>

definition scheme_char :: "codepoint \<Rightarrow> bool" where
  "scheme_char c =
     (ascii_lower c \<or> ascii_upper c \<or> ascii_digit c \<or> c = 43 \<or> c = 45 \<or> c = 46)"

definition split_scheme :: "str \<Rightarrow> str \<times> str" where
  "split_scheme u =
     (let pre = takeWhile (\<lambda>c. c \<noteq> 58) u in
      if 58 \<in> set u \<and> pre \<noteq> []
         \<and> (ascii_lower (hd pre) \<or> ascii_upper (hd pre))
         \<and> list_all scheme_char pre
      then (map to_lower pre, drop (Suc (length pre)) u)
      else ([], u))"

definition urlsplit :: "unicode \<Rightarrow> str \<Rightarrow> (str \<times> str) option" where
  "urlsplit uc url0 =
     (let url1 = dropWhile (\<lambda>c. c \<le> 32) url0;
          url2 = filter (\<lambda>c. c \<noteq> 9 \<and> c \<noteq> 13 \<and> c \<noteq> 10) url1;
          (scheme, url3) = split_scheme url2;
          netloc = (if take 2 url3 = [47, 47]
                    then takeWhile (\<lambda>c. c \<noteq> 47 \<and> c \<noteq> 63 \<and> c \<noteq> 35) (drop 2 url3)
                    else [])
      in if (91 \<in> set netloc) \<noteq> (93 \<in> set netloc) then None
         else if 91 \<in> set netloc \<and> \<not> uc_bracketed_ok uc netloc then None
         else if netloc \<noteq> [] \<and> \<not> list_all (\<lambda>c. c < 128) netloc \<and> \<not> uc_netloc_ok uc netloc
         then None
         else Some (scheme, netloc))"

subsection \<open>validate_url and is_valid_short_code\<close>

text \<open>
  \<open>validate_url\<close>: the checks in the order of the source. A \<open>ValueError\<close> of \<open>urlparse\<close>
  is caught by \<open>except Exception\<close> and gives \<open>False\<close>.
\<close>

definition validate_url :: "unicode \<Rightarrow> pyval \<Rightarrow> bool" where
  "validate_url uc v =
     (case v of
        PStr u \<Rightarrow>
          if u = [] then False
          else if \<not> re_match (url_pattern uc) u then False
          else (case urlsplit uc u of
                  None \<Rightarrow> False
                | Some (scheme, netloc) \<Rightarrow>
                    if scheme = [] \<or> netloc = [] then False
                    else if scheme \<notin> set [ascii ''http'', ascii ''https''] then False
                    else True)
      | _ \<Rightarrow> False)"

text \<open>
  \<open>str.isalnum()\<close>: the string is not empty and every character is alphanumeric. On
  ASCII these are the letters and the digits.
\<close>

definition isalnum_char :: "unicode \<Rightarrow> codepoint \<Rightarrow> bool" where
  "isalnum_char uc c =
     (if c < 128 then ascii_lower c \<or> ascii_upper c \<or> ascii_digit c else uc_alnum uc c)"

definition isalnum :: "unicode \<Rightarrow> str \<Rightarrow> bool" where
  "isalnum uc s = (s \<noteq> [] \<and> list_all (isalnum_char uc) s)"

definition is_valid_short_code :: "unicode \<Rightarrow> pyval \<Rightarrow> bool" where
  "is_valid_short_code uc v =
     (case v of
        PStr code \<Rightarrow>
          if code = [] then False
          else if length code < 3 then False
          else isalnum uc code
      | _ \<Rightarrow> False)"

text \<open>
  For the statements: the first character of a host that \<open>url_pattern\<close> can match is a
  letter or digit (108 is the letter l of \<open>localhost\<close>).
\<close>

definition host_start :: "unicode \<Rightarrow> codepoint \<Rightarrow> bool" where
  "host_start uc c = (alnum_i uc c \<or> re_digit uc c \<or> lit_i uc 108 c)"

text \<open>
  A small table for examples: of the code points from 128 on, it makes \<open>\<eacute>\<close> (233)
  alphanumeric and nothing else a digit, a space or a letter.
\<close>

definition sample_unicode :: unicode where
  "sample_unicode =
     \<lparr>uc_digit = (\<lambda>c. False), uc_space = (\<lambda>c. False), uc_caseless = (\<lambda>c a. False),
      uc_alnum = (\<lambda>c. c = 233), uc_netloc_ok = (\<lambda>n. True), uc_bracketed_ok = (\<lambda>n. True)\<rparr>"

section \<open>Store: round trip\<close>

text \<open>
  C1. For every code \<open>c\<close> and URL \<open>u\<close>: when \<open>add_url(c, u)\<close> returns \<open>True\<close>, the
  \<open>get_url(c)\<close> that follows it directly returns exactly \<open>u\<close>.
\<close>

theorem add_url_then_get_url:
  assumes "fst (add_url now c u st) = True"
  shows "fst (get_url c (snd (add_url now c u st))) = Some u"
  using assms by (simp add: add_url_def get_url_def split: if_splits)

theorem add_url_then_get_url_witness:
  "fst (add_url (ascii ''t0'') (ascii ''abc234'') (ascii ''http://example.com'') fmempty) = True
   \<and> fst (get_url (ascii ''abc234'')
        (snd (add_url (ascii ''t0'') (ascii ''abc234'') (ascii ''http://example.com'') fmempty)))
     = Some (ascii ''http://example.com'')"
proof -
  have h: "fst (add_url (ascii ''t0'') (ascii ''abc234'') (ascii ''http://example.com'') fmempty)
           = True"
    by (simp add: add_url_def)
  show ?thesis using h add_url_then_get_url [OF h] by simp
qed

section \<open>Store: what one call does to a record\<close>

lemma step_lookup:
  assumes "fmlookup st c = Some d"
  shows "\<exists>d'. fmlookup (step x st) c = Some d'
           \<and> url d' = url d \<and> created_at d' = created_at d
           \<and> clicks d' = clicks d + visits c [x]"
proof (cases x)
  case (Pair now opn)
  show ?thesis
  proof (cases opn)
    case (AddUrl c' u)
    with Pair assms show ?thesis
      by (cases "c' = c") (auto simp: add_url_def fmdom_notI)
  next
    case (GetUrl c')
    with Pair assms show ?thesis
      by (simp add: get_url_def split: option.splits)
  next
    case (IncrementClicks c')
    with Pair assms show ?thesis
      by (cases "c' = c") (auto simp: increment_clicks_def split: option.splits)
  next
    case (GetStats c')
    with Pair assms show ?thesis
      by (simp add: get_stats_def split: option.splits)
  next
    case GetExistingCodes
    with Pair assms show ?thesis
      by (simp add: get_existing_codes_def)
  next
    case GetTotalUrls
    with Pair assms show ?thesis
      by (simp add: get_total_urls_def)
  qed
qed

lemma visits_Cons: "visits c (x # xs) = visits c [x] + visits c xs"
  by (cases "(c, x # xs)" rule: visits.cases) auto

lemma run_lookup:
  assumes "fmlookup st c = Some d"
  shows "\<exists>d'. fmlookup (run tr st) c = Some d'
           \<and> url d' = url d \<and> created_at d' = created_at d
           \<and> clicks d' = clicks d + visits c tr"
  using assms
proof (induction tr arbitrary: st d)
  case Nil
  then show ?case by simp
next
  case (Cons x tr)
  from step_lookup [OF Cons.prems, of x] obtain d1 where
    d1: "fmlookup (step x st) c = Some d1" "url d1 = url d" "created_at d1 = created_at d"
        "clicks d1 = clicks d + visits c [x]"
    by blast
  from Cons.IH [OF d1(1)] obtain d2 where
    d2: "fmlookup (run tr (step x st)) c = Some d2" "url d2 = url d1"
        "created_at d2 = created_at d1" "clicks d2 = clicks d1 + visits c tr"
    by blast
  have "clicks d2 = clicks d + visits c (x # tr)"
    using d1(4) d2(4) visits_Cons [of c x tr] by simp
  with d1 d2 show ?case by simp
qed

lemma visits_nonneg: "0 \<le> visits c tr"
  by (induction c tr rule: visits.induct) auto

lemma step_fmdom: "fmdom st |\<subseteq>| fmdom (step x st)"
proof
  fix c assume "c |\<in>| fmdom st"
  then obtain d where "fmlookup st c = Some d"
    by (auto simp: fmlookup_dom_iff)
  from step_lookup [OF this, of x] show "c |\<in>| fmdom (step x st)"
    by (auto simp: fmlookup_dom_iff)
qed

section \<open>Store: insertion\<close>

text \<open>
  C4. For every store state, \<open>add_url(code, url)\<close> returns \<open>True\<close> if and only if
  \<open>code\<close> is not yet present; it then inserts a fresh record with \<open>clicks = 0\<close>,
  \<open>created_at\<close> the time of the insertion and \<open>last_accessed\<close> absent. When \<open>code\<close>
  is present it returns \<open>False\<close> and leaves the whole store as it was.
\<close>

theorem add_url_check_and_insert:
  "(fst (add_url now c u st) = True \<longleftrightarrow> c |\<notin>| fmdom st)
   \<and> (c |\<notin>| fmdom st \<longrightarrow>
        snd (add_url now c u st) =
          fmupd c \<lparr>url = u, clicks = 0, created_at = now, last_accessed = None\<rparr> st)
   \<and> (c |\<in>| fmdom st \<longrightarrow> add_url now c u st = (False, st))"
  by (simp add: add_url_def)

theorem add_url_check_and_insert_witness:
  "ascii ''abc'' |\<notin>| fmdom (fmempty :: urls)
   \<and> add_url (ascii ''t0'') (ascii ''abc'') (ascii ''http://a.io'') fmempty =
       (True, fmupd (ascii ''abc'')
          \<lparr>url = ascii ''http://a.io'', clicks = 0, created_at = ascii ''t0'',
           last_accessed = None\<rparr> fmempty)
   \<and> ascii ''abc'' |\<in>| fmdom (snd (add_url (ascii ''t0'') (ascii ''abc'') (ascii ''http://a.io'') fmempty))
   \<and> add_url (ascii ''t1'') (ascii ''abc'') (ascii ''http://b.io'')
         (snd (add_url (ascii ''t0'') (ascii ''abc'') (ascii ''http://a.io'') fmempty)) =
       (False, snd (add_url (ascii ''t0'') (ascii ''abc'') (ascii ''http://a.io'') fmempty))"
proof -
  let ?st1 = "snd (add_url (ascii ''t0'') (ascii ''abc'') (ascii ''http://a.io'') fmempty)"
  have a: "ascii ''abc'' |\<notin>| fmdom (fmempty :: urls)"
    by simp
  have b: "ascii ''abc'' |\<in>| fmdom ?st1"
    by (simp add: add_url_def)
  from a add_url_check_and_insert [of "ascii ''t0''" "ascii ''abc''" "ascii ''http://a.io''" fmempty]
  have c: "add_url (ascii ''t0'') (ascii ''abc'') (ascii ''http://a.io'') fmempty =
       (True, fmupd (ascii ''abc'')
          \<lparr>url = ascii ''http://a.io'', clicks = 0, created_at = ascii ''t0'',
           last_accessed = None\<rparr> fmempty)"
    by (simp add: prod_eq_iff)
  from b add_url_check_and_insert [of "ascii ''t1''" "ascii ''abc''" "ascii ''http://b.io''" ?st1]
  have d: "add_url (ascii ''t1'') (ascii ''abc'') (ascii ''http://b.io'') ?st1 = (False, ?st1)"
    by blast
  from a b c d show ?thesis by blast
qed

section \<open>Store: visits\<close>

text \<open>
  C5. For a code \<open>c\<close> present in the store, \<open>increment_clicks(c)\<close> adds exactly 1 to
  the record's \<open>clicks\<close>, sets its \<open>last_accessed\<close> to the current time and returns
  \<open>True\<close>; for an absent \<open>c\<close> it returns \<open>False\<close> and changes nothing. Hence, after a
  successful \<open>add_url(c, u)\<close> and any sequence of calls holding \<open>n\<close> visits of \<open>c\<close>,
  \<open>get_stats(c)\<close> reports \<open>clicks = n\<close>; and no call, and no sequence of calls, ever
  lowers the \<open>clicks\<close> of a record.
\<close>

theorem increment_clicks_counts:
  "(\<forall>d. fmlookup st c = Some d \<longrightarrow>
        increment_clicks now c st =
          (True, fmupd c (d\<lparr>clicks := clicks d + 1, last_accessed := Some now\<rparr>) st))
   \<and> (fmlookup st c = None \<longrightarrow> increment_clicks now c st = (False, st))
   \<and> (fst (add_url now c u st) = True \<longrightarrow>
        map_option clicks (fst (get_stats c (run tr (snd (add_url now c u st)))))
          = Some (visits c tr))
   \<and> (\<forall>d. fmlookup st c = Some d \<longrightarrow>
        (\<exists>d'. fmlookup (step x st) c = Some d' \<and> clicks d \<le> clicks d'))
   \<and> (\<forall>d. fmlookup st c = Some d \<longrightarrow>
        (\<exists>d'. fmlookup (run tr st) c = Some d' \<and> clicks d \<le> clicks d'))"
proof (intro conjI allI impI)
  fix d assume "fmlookup st c = Some d"
  then show "increment_clicks now c st =
      (True, fmupd c (d\<lparr>clicks := clicks d + 1, last_accessed := Some now\<rparr>) st)"
    by (simp add: increment_clicks_def)
next
  assume "fmlookup st c = None"
  then show "increment_clicks now c st = (False, st)"
    by (simp add: increment_clicks_def)
next
  assume ok: "fst (add_url now c u st) = True"
  let ?st1 = "snd (add_url now c u st)"
  let ?d0 = "\<lparr>url = u, clicks = 0, created_at = now, last_accessed = None\<rparr>"
  from ok have "fmlookup ?st1 c = Some ?d0"
    by (simp add: add_url_def split: if_splits)
  from run_lookup [OF this, of tr] obtain d' where
    "fmlookup (run tr ?st1) c = Some d'" "clicks d' = visits c tr"
    by auto
  then show "map_option clicks (fst (get_stats c (run tr ?st1))) = Some (visits c tr)"
    by (simp add: get_stats_def)
next
  fix d assume "fmlookup st c = Some d"
  from step_lookup [OF this, of x] obtain d' where
    "fmlookup (step x st) c = Some d'" "clicks d' = clicks d + visits c [x]"
    by blast
  with visits_nonneg [of c "[x]"]
  show "\<exists>d'. fmlookup (step x st) c = Some d' \<and> clicks d \<le> clicks d'"
    by auto
next
  fix d assume "fmlookup st c = Some d"
  from run_lookup [OF this, of tr] obtain d' where
    "fmlookup (run tr st) c = Some d'" "clicks d' = clicks d + visits c tr"
    by blast
  with visits_nonneg [of c tr]
  show "\<exists>d'. fmlookup (run tr st) c = Some d' \<and> clicks d \<le> clicks d'"
    by auto
qed

theorem increment_clicks_counts_witness:
  "fmlookup (fmupd [97] \<lparr>url = [104], clicks = 0, created_at = [48], last_accessed = None\<rparr> fmempty) [97]
     = Some \<lparr>url = [104], clicks = 0, created_at = [48], last_accessed = None\<rparr>
   \<and> increment_clicks [49] [97]
        (fmupd [97] \<lparr>url = [104], clicks = 0, created_at = [48], last_accessed = None\<rparr> fmempty)
     = (True, fmupd [97] \<lparr>url = [104], clicks = 1, created_at = [48], last_accessed = Some [49]\<rparr>
               (fmupd [97] \<lparr>url = [104], clicks = 0, created_at = [48], last_accessed = None\<rparr> fmempty))
   \<and> fmlookup (fmempty :: urls) [97] = None
   \<and> increment_clicks [49] [97] fmempty = (False, fmempty)
   \<and> fst (add_url [48] [97] [104] fmempty) = True
   \<and> map_option clicks
        (fst (get_stats [97]
           (run [([49], IncrementClicks [97]), ([50], GetUrl [97]), ([51], IncrementClicks [98]),
                 ([52], AddUrl [97] [105]), ([53], IncrementClicks [97])]
              (snd (add_url [48] [97] [104] fmempty)))))
     = Some 2
   \<and> (\<exists>d'. fmlookup (step ([49], IncrementClicks [97])
               (fmupd [97] \<lparr>url = [104], clicks = 0, created_at = [48], last_accessed = None\<rparr> fmempty))
             [97] = Some d'
          \<and> 0 \<le> clicks d')"
proof -
  let ?d0 = "\<lparr>url = [104], clicks = 0, created_at = [48], last_accessed = None\<rparr> :: url_data"
  let ?s1 = "fmupd [97] ?d0 fmempty"
  let ?tr = "[([49], IncrementClicks [97]), ([50], GetUrl [97]), ([51], IncrementClicks [98]),
              ([52], AddUrl [97] [105]), ([53], IncrementClicks [97])]"
  have h1: "fmlookup ?s1 [97] = Some ?d0" by simp
  have h2: "fmlookup (fmempty :: urls) [97] = None" by simp
  have h3: "fst (add_url [48] [97] [104] fmempty) = True" by (simp add: add_url_def)
  note a = increment_clicks_counts
    [where st = ?s1 and c = "[97]" and now = "[49]" and x = "([49], IncrementClicks [97])"]
  note b = increment_clicks_counts
    [where st = fmempty and c = "[97]" and now = "[49]"]
  note c = increment_clicks_counts
    [where st = fmempty and c = "[97]" and now = "[48]" and u = "[104]" and tr = ?tr]
  from a h1 have g1: "increment_clicks [49] [97] ?s1
      = (True, fmupd [97] (?d0\<lparr>clicks := clicks ?d0 + 1, last_accessed := Some [49]\<rparr>) ?s1)"
    by blast
  from a h1 have g4: "\<exists>d'. fmlookup (step ([49], IncrementClicks [97]) ?s1) [97] = Some d'
      \<and> clicks ?d0 \<le> clicks d'"
    by blast
  from b h2 have g2: "increment_clicks [49] [97] fmempty = (False, fmempty)"
    by blast
  from c h3 have g3: "map_option clicks
      (fst (get_stats [97] (run ?tr (snd (add_url [48] [97] [104] fmempty)))))
      = Some (visits [97] ?tr)"
    by blast
  have v: "visits [97] ?tr = 2" by simp
  from h1 h2 h3 g1 g2 g3 g4 v show ?thesis by simp
qed

section \<open>Store: reads\<close>

text \<open>
  C6. For every store state and every code \<open>c\<close>, \<open>get_url(c)\<close> and \<open>get_stats(c)\<close>
  leave the store exactly as it was; in particular they change no record's \<open>clicks\<close>.
\<close>

theorem get_url_get_stats_read_only:
  "snd (get_url c st) = st \<and> snd (get_stats c st) = st
   \<and> map_option clicks (fmlookup (snd (get_url c st)) k) = map_option clicks (fmlookup st k)
   \<and> map_option clicks (fmlookup (snd (get_stats c st)) k) = map_option clicks (fmlookup st k)"
  by (simp add: get_url_def get_stats_def split: option.splits)

section \<open>Store: inserted mappings are permanent\<close>

text \<open>
  C7. For every store state and every operation of the store (\<open>add_url\<close>, \<open>get_url\<close>,
  \<open>increment_clicks\<close>, \<open>get_stats\<close>, \<open>get_existing_codes\<close>, \<open>get_total_urls\<close>), a code
  present before the call is present after it with the same \<open>url\<close> and \<open>created_at\<close>;
  the set of codes only grows, and the same holds after any sequence of calls.
\<close>

theorem inserted_mapping_permanent:
  "(\<forall>d. fmlookup st c = Some d \<longrightarrow>
        (\<exists>d'. fmlookup (step x st) c = Some d' \<and> url d' = url d \<and> created_at d' = created_at d))
   \<and> fmdom st |\<subseteq>| fmdom (step x st)
   \<and> (\<forall>d. fmlookup st c = Some d \<longrightarrow>
        (\<exists>d'. fmlookup (run tr st) c = Some d' \<and> url d' = url d \<and> created_at d' = created_at d))"
proof (intro conjI allI impI)
  fix d assume "fmlookup st c = Some d"
  from step_lookup [OF this, of x]
  show "\<exists>d'. fmlookup (step x st) c = Some d' \<and> url d' = url d \<and> created_at d' = created_at d"
    by blast
next
  show "fmdom st |\<subseteq>| fmdom (step x st)"
    by (rule step_fmdom)
next
  fix d assume "fmlookup st c = Some d"
  from run_lookup [OF this, of tr]
  show "\<exists>d'. fmlookup (run tr st) c = Some d' \<and> url d' = url d \<and> created_at d' = created_at d"
    by blast
qed

theorem inserted_mapping_permanent_witness:
  "fmlookup (fmupd [97] \<lparr>url = [104], clicks = 0, created_at = [48], last_accessed = None\<rparr> fmempty) [97]
     = Some \<lparr>url = [104], clicks = 0, created_at = [48], last_accessed = None\<rparr>
   \<and> (\<exists>d'. fmlookup (step ([49], AddUrl [97] [105])
               (fmupd [97] \<lparr>url = [104], clicks = 0, created_at = [48], last_accessed = None\<rparr> fmempty))
             [97] = Some d'
          \<and> url d' = [104] \<and> created_at d' = [48])
   \<and> (\<exists>d'. fmlookup (run [([49], AddUrl [97] [105]), ([50], IncrementClicks [97]),
                            ([51], AddUrl [98] [106]), ([52], GetStats [97])]
               (fmupd [97] \<lparr>url = [104], clicks = 0, created_at = [48], last_accessed = None\<rparr> fmempty))
             [97] = Some d'
          \<and> url d' = [104] \<and> created_at d' = [48])"
proof -
  let ?d0 = "\<lparr>url = [104], clicks = 0, created_at = [48], last_accessed = None\<rparr> :: url_data"
  let ?s1 = "fmupd [97] ?d0 fmempty"
  have h: "fmlookup ?s1 [97] = Some ?d0" by simp
  note a = inserted_mapping_permanent
    [where st = ?s1 and c = "[97]" and x = "([49], AddUrl [97] [105])"
       and tr = "[([49], AddUrl [97] [105]), ([50], IncrementClicks [97]),
                  ([51], AddUrl [98] [106]), ([52], GetStats [97])]"]
  from a h have g1: "\<exists>d'. fmlookup (step ([49], AddUrl [97] [105]) ?s1) [97] = Some d'
      \<and> url d' = url ?d0 \<and> created_at d' = created_at ?d0"
    by blast
  from a h have g2: "\<exists>d'. fmlookup (run [([49], AddUrl [97] [105]), ([50], IncrementClicks [97]),
                  ([51], AddUrl [98] [106]), ([52], GetStats [97])] ?s1) [97] = Some d'
      \<and> url d' = url ?d0 \<and> created_at d' = created_at ?d0"
    by blast
  from h g1 g2 show ?thesis by simp
qed

section \<open>The generator\<close>

lemma safe_chars_value:
  "safe_chars = ascii ''abcdefghijkmnopqrstuvwxyzABCDEFGHJKLMNPQRSTUVWXYZ23456789''"
  by (simp add: safe_chars_def ascii_letters_def digits_def ascii_def)

lemma safe_chars_length: "length safe_chars = 57"
  by (simp add: safe_chars_value ascii_def)

lemma safe_chars_distinct: "distinct safe_chars"
  by (simp add: safe_chars_value ascii_def)

lemma safe_chars_nonempty: "safe_chars \<noteq> []"
  using safe_chars_length by auto

lemma drawn_Suc:
  "drawn r p (Suc n) = safe_chars ! (r p mod length safe_chars) # drawn r (Suc p) n"
  by (simp add: drawn_def map_upt_Suc del: upt_Suc)

lemma draw_code_drawn: "draw_code n r p = Inr (drawn r p n, p + n)"
proof (induction n arbitrary: p)
  case 0
  show ?case by (simp add: drawn_def)
next
  case (Suc n)
  show ?case
    by (simp add: random_choice_def safe_chars_nonempty Suc drawn_Suc)
qed

lemma drawn_length: "length (drawn r p n) = n"
  by (simp add: drawn_def)

lemma drawn_safe: "set (drawn r p n) \<subseteq> set safe_chars"
  by (auto simp: drawn_def safe_chars_length)

lemma attempt_loop_outcome:
  "(\<exists>j. attempt + j < max_attempts
        \<and> attempt_loop len ex r attempt q
            = Inr (drawn r (q + j * nat len) (nat len), q + Suc j * nat len)
        \<and> drawn r (q + j * nat len) (nat len) \<notin> ex
        \<and> (\<forall>i<j. drawn r (q + i * nat len) (nat len) \<in> ex))
   \<or> (attempt_loop len ex r attempt q = Inl GenerationExhausted
        \<and> (\<forall>j. attempt + j < max_attempts \<longrightarrow> drawn r (q + j * nat len) (nat len) \<in> ex))"
proof (induction len ex r attempt q rule: attempt_loop.induct)
  case (1 len ex r attempt q)
  let ?n = "nat len"
  let ?c = "\<lambda>j. drawn r (q + j * ?n) ?n"
  show ?case
  proof (cases "attempt < max_attempts")
    case False
    then show ?thesis
      by (simp add: attempt_loop.simps)
  next
    case lt: True
    show ?thesis
    proof (cases "?c 0 \<in> ex")
      case False
      with lt have "attempt_loop len ex r attempt q = Inr (?c 0, q + ?n)"
        by (simp add: attempt_loop.simps [of len ex r attempt q] draw_code_drawn)
      with False lt have "attempt + 0 < max_attempts
        \<and> attempt_loop len ex r attempt q = Inr (?c 0, q + Suc 0 * ?n)
        \<and> ?c 0 \<notin> ex \<and> (\<forall>i<0. ?c i \<in> ex)"
        by simp
      then show ?thesis by blast
    next
      case True
      with lt have unf: "attempt_loop len ex r attempt q
          = attempt_loop len ex r (attempt + 1) (q + ?n)"
        by (simp add: attempt_loop.simps [of len ex r attempt q] draw_code_drawn)
      have sh: "\<And>j. drawn r (q + ?n + j * ?n) ?n = ?c (Suc j)"
        by (simp add: add.assoc add.commute)
      from True have inx: "\<not> (drawn r q ?n \<notin> ex)" by simp
      note IH = "1.IH" [OF lt draw_code_drawn [of ?n r q] refl inx]
      from IH show ?thesis
      proof (elim disjE exE conjE)
        fix j
        assume bound: "attempt + 1 + j < max_attempts"
          and res: "attempt_loop len ex r (attempt + 1) (q + ?n)
                    = Inr (drawn r (q + ?n + j * ?n) ?n, q + ?n + Suc j * ?n)"
          and fresh: "drawn r (q + ?n + j * ?n) ?n \<notin> ex"
          and before: "\<forall>i<j. drawn r (q + ?n + i * ?n) ?n \<in> ex"
        have earlier: "?c i \<in> ex" if "i < Suc j" for i
        proof (cases i)
          case 0
          with True show ?thesis by simp
        next
          case (Suc i')
          with that have "i' < j" by simp
          with before have "drawn r (q + ?n + i' * ?n) ?n \<in> ex" by blast
          then show ?thesis by (simp only: Suc sh)
        qed
        from bound have "attempt + Suc j < max_attempts" by simp
        moreover have "q + ?n + Suc j * ?n = q + Suc (Suc j) * ?n" by simp
        with unf res
        have "attempt_loop len ex r attempt q = Inr (?c (Suc j), q + Suc (Suc j) * ?n)"
          by (simp only: sh)
        moreover from fresh have "?c (Suc j) \<notin> ex" unfolding sh .
        ultimately show ?thesis using earlier by blast
      next
        assume res: "attempt_loop len ex r (attempt + 1) (q + ?n) = Inl GenerationExhausted"
          and every: "\<forall>j. attempt + 1 + j < max_attempts \<longrightarrow> drawn r (q + ?n + j * ?n) ?n \<in> ex"
        have "?c j \<in> ex" if "attempt + j < max_attempts" for j
        proof (cases j)
          case 0
          with True show ?thesis by simp
        next
          case (Suc j')
          with that have "attempt + 1 + j' < max_attempts" by simp
          with every have "drawn r (q + ?n + j' * ?n) ?n \<in> ex" by blast
          then show ?thesis by (simp only: Suc sh)
        qed
        with unf res show ?thesis by simp
      qed
    qed
  qed
qed


lemma alphabet_62:
  "distinct (ascii_letters @ digits) \<and> length (ascii_letters @ digits) = 62"
  by (simp add: ascii_letters_def digits_def ascii_def)

lemma alphabet_members:
  "c \<in> set (ascii_letters @ digits) \<longleftrightarrow> ascii_lower c \<or> ascii_upper c \<or> ascii_digit c"
proof
  have "list_all (\<lambda>c. ascii_lower c \<or> ascii_upper c \<or> ascii_digit c) (ascii_letters @ digits)"
    by (simp add: ascii_letters_def digits_def ascii_def ascii_lower_def ascii_upper_def
        ascii_digit_def)
  then show "c \<in> set (ascii_letters @ digits) \<Longrightarrow> ascii_lower c \<or> ascii_upper c \<or> ascii_digit c"
    by (simp add: list_all_iff)
next
  have "list_all (\<lambda>c. c \<in> set (ascii_letters @ digits)) ([97..<123] @ [65..<91] @ [48..<58])"
    by (simp add: ascii_letters_def digits_def ascii_def upt_rec)
  then have "\<forall>c\<in>set ([97..<123] @ [65..<91] @ [48..<58]). c \<in> set (ascii_letters @ digits)"
    by (simp only: list_all_iff)
  moreover assume "ascii_lower c \<or> ascii_upper c \<or> ascii_digit c"
  then have "c \<in> {97..<123} \<union> {65..<91} \<union> {48..<58}"
    by (auto simp: ascii_lower_def ascii_upper_def ascii_digit_def)
  then have "c \<in> set ([97..<123] @ [65..<91] @ [48..<58])"
    by (simp only: set_append set_upt Un_assoc)
  ultimately show "c \<in> set (ascii_letters @ digits)" by blast
qed

section \<open>Generator: the safe alphabet\<close>

text \<open>
  C2, as stated, fails: the safe alphabet is the 62 alphanumeric characters without the
  five characters \<open>0\<close>, \<open>O\<close>, \<open>l\<close>, \<open>1\<close>, \<open>I\<close>, and so it does not have 58
  characters.
\<close>

theorem safe_alphabet_58_counterexample:
  "\<not> (set safe_chars = set (ascii_letters @ digits) - set (ascii ''0Ol1I'')
      \<and> card (set safe_chars) = 58)"
  using distinct_card [OF safe_chars_distinct] by (simp add: safe_chars_length)

text \<open>
  C2, amended. The safe alphabet is exactly the 62 alphanumeric characters minus the five
  visually ambiguous characters \<open>0\<close>, \<open>O\<close>, \<open>l\<close>, \<open>1\<close>, \<open>I\<close>, and this set has
  exactly 57 characters.
\<close>

theorem safe_alphabet_57:
  "set safe_chars = set (ascii_letters @ digits) - set (ascii ''0Ol1I'')
   \<and> (\<forall>c. c \<in> set (ascii_letters @ digits)
          \<longleftrightarrow> ascii_lower c \<or> ascii_upper c \<or> ascii_digit c)
   \<and> card (set (ascii_letters @ digits)) = 62
   \<and> card (set (ascii ''0Ol1I'')) = 5
   \<and> set (ascii ''0Ol1I'') \<subseteq> set (ascii_letters @ digits)
   \<and> distinct safe_chars
   \<and> length safe_chars = 57
   \<and> card (set safe_chars) = 57"
proof (intro conjI)
  show "set safe_chars = set (ascii_letters @ digits) - set (ascii ''0Ol1I'')"
    unfolding safe_chars_def by auto
  show "\<forall>c. c \<in> set (ascii_letters @ digits)
          \<longleftrightarrow> ascii_lower c \<or> ascii_upper c \<or> ascii_digit c"
    using alphabet_members by blast
  show "card (set (ascii_letters @ digits)) = 62"
    using alphabet_62 by (simp only: distinct_card)
  have "distinct (ascii ''0Ol1I'')" "length (ascii ''0Ol1I'') = 5"
    by (simp_all add: ascii_def)
  then show "card (set (ascii ''0Ol1I'')) = 5"
    by (simp only: distinct_card)
  show "set (ascii ''0Ol1I'') \<subseteq> set (ascii_letters @ digits)"
    by (simp add: ascii_letters_def digits_def ascii_def)
  show "distinct safe_chars" by (rule safe_chars_distinct)
  show "length safe_chars = 57" by (rule safe_chars_length)
  show "card (set safe_chars) = 57"
    using distinct_card [OF safe_chars_distinct] by (simp add: safe_chars_length)
qed

section \<open>Generator: outcomes\<close>

text \<open>
  C3, as stated, fails for a negative \<open>length\<close>: \<open>range(length)\<close> is then empty and
  the code returned is the empty string, which does not have \<open>length\<close> characters.
\<close>

theorem generate_short_code_length_counterexample:
  "\<exists>code p'. generate_short_code (- 1) None (\<lambda>i. 0) 0 = Inr (code, p')
      \<and> int (length code) \<noteq> - 1"
  by (simp add: generate_short_code_def avoid_def attempt_loop.simps max_attempts_def)

text \<open>
  C3, amended. For every integer \<open>length\<close> and every avoid-set, \<open>generate_short_code\<close>
  either returns a code of exactly \<open>max(length, 0)\<close> characters, each from the safe
  alphabet, that is not in the avoid-set (the first of at most 100 drawn candidates that
  is not in it), or, when all 100 drawn candidates are in the avoid-set, fails with the
  generation-exhausted error; there is no other outcome.
\<close>

theorem generate_short_code_outcome:
  "(\<exists>k<100.
       generate_short_code len existing_codes r p
         = Inr (candidate len r p k, p + Suc k * nat len)
       \<and> length (candidate len r p k) = nat len
       \<and> set (candidate len r p k) \<subseteq> set safe_chars
       \<and> candidate len r p k \<notin> avoid existing_codes
       \<and> (\<forall>i<k. candidate len r p i \<in> avoid existing_codes))
   \<or> (generate_short_code len existing_codes r p = Inl GenerationExhausted
       \<and> (\<forall>k<100. candidate len r p k \<in> avoid existing_codes))"
  using attempt_loop_outcome [of 0 len "avoid existing_codes" r p]
  unfolding generate_short_code_def candidate_def max_attempts_def
  by (simp add: drawn_length drawn_safe)

theorem generate_short_code_outcome_witness:
  "generate_short_code 2 (Some {[97, 97]}) (\<lambda>i. if i < 2 then 0 else 1) 0 = Inr ([98, 98], 4)
   \<and> generate_short_code 0 (Some {[]}) (\<lambda>i. 0) 0 = Inl GenerationExhausted"
proof
  let ?r = "\<lambda>i::nat. if i < 2 then 0 else (1::nat)"
  let ?ex = "Some {[97, 97 :: nat]}"
  have c0: "candidate 2 ?r 0 0 = [97, 97]"
    by (simp add: candidate_def drawn_def safe_chars_value ascii_def upt_rec)
  have c1: "candidate 2 ?r 0 1 = [98, 98]"
    by (simp add: candidate_def drawn_def safe_chars_value ascii_def upt_rec)
  have av: "avoid ?ex = {[97, 97]}" by (simp add: avoid_def)
  from generate_short_code_outcome [of 2 ?ex ?r 0]
  show "generate_short_code 2 ?ex ?r 0 = Inr ([98, 98], 4)"
  proof (elim disjE exE conjE)
    fix k
    assume res: "generate_short_code 2 ?ex ?r 0 = Inr (candidate 2 ?r 0 k, 0 + Suc k * nat 2)"
      and fresh: "candidate 2 ?r 0 k \<notin> avoid ?ex"
      and before: "\<forall>i<k. candidate 2 ?r 0 i \<in> avoid ?ex"
    from fresh c0 av have "k \<noteq> 0" by (auto intro: ccontr)
    moreover have "\<not> 1 < k"
    proof
      assume "1 < k"
      with before have "candidate 2 ?r 0 1 \<in> avoid ?ex" by blast
      with c1 av show False by simp
    qed
    ultimately have "k = 1" by simp
    with res c1 show ?thesis by simp
  next
    assume "\<forall>k<100. candidate 2 ?r 0 k \<in> avoid ?ex"
    then have "candidate 2 ?r 0 1 \<in> avoid ?ex" by simp
    with c1 av show ?thesis by simp
  qed
next
  have c: "candidate 0 (\<lambda>i. 0) 0 k = []" for k
    by (simp add: candidate_def drawn_def)
  have av: "avoid (Some {[]}) = {[] :: str}" by (simp add: avoid_def)
  from generate_short_code_outcome [of 0 "Some {[]}" "\<lambda>i. 0" 0]
  show "generate_short_code 0 (Some {[]}) (\<lambda>i. 0) 0 = Inl GenerationExhausted"
    by (simp add: c av)
qed

section \<open>Generator: nothing to avoid\<close>

text \<open>
  C10. For every \<open>length\<close> of at least 1, when the avoid-set is empty or is the \<open>None\<close>
  default, the first drawn candidate is accepted: the call returns it after the
  \<open>length\<close> draws of the first iteration, and never fails with the
  generation-exhausted error.
\<close>

theorem first_candidate_accepted:
  assumes "1 \<le> len" and "existing_codes = None \<or> existing_codes = Some {}"
  shows "generate_short_code len existing_codes r p = Inr (candidate len r p 0, p + nat len)
         \<and> generate_short_code len existing_codes r p \<noteq> Inl GenerationExhausted"
proof -
  from assms(2) have "avoid existing_codes = {}"
    by (auto simp: avoid_def)
  then show ?thesis
    by (simp add: generate_short_code_def attempt_loop.simps [of len "{}" r 0 p]
        max_attempts_def draw_code_drawn candidate_def)
qed

theorem first_candidate_accepted_witness:
  "(1::int) \<le> 6 \<and> ((None :: str set option) = None \<or> (None :: str set option) = Some {})
   \<and> generate_short_code 6 None (\<lambda>i. i) 0 = Inr ([97, 98, 99, 100, 101, 102], 6)
   \<and> generate_short_code 6 (Some {}) (\<lambda>i. 56) 7 = Inr ([57, 57, 57, 57, 57, 57], 13)"
proof -
  have h1: "(1::int) \<le> 6" by simp
  have h2: "(None :: str set option) = None \<or> (None :: str set option) = Some {}" by simp
  have h3: "Some {} = None \<or> Some {} = Some ({} :: str set)" by simp
  have c1: "candidate 6 (\<lambda>i. i) 0 0 = [97, 98, 99, 100, 101, 102]"
    by (simp add: candidate_def drawn_def safe_chars_value ascii_def upt_rec)
  have c2: "candidate 6 (\<lambda>i. 56) 7 0 = [57, 57, 57, 57, 57, 57]"
    by (simp add: candidate_def drawn_def safe_chars_value ascii_def upt_rec)
  from first_candidate_accepted [OF h1 h2, of "\<lambda>i. i" 0]
       first_candidate_accepted [OF h1 h3, of "\<lambda>i. 56" 7] h1 c1 c2
  show ?thesis by simp
qed

section \<open>The validators\<close>

lemma rx_one_set: "t \<in> set (rx_one P s) \<longleftrightarrow> (\<exists>c. s = c # t \<and> P c)"
  by (cases s) (auto simp: rx_one_def)

lemma rx_seq_set: "t \<in> set (rx_seq a b s) \<longleftrightarrow> (\<exists>u\<in>set (a s). t \<in> set (b u))"
  by (auto simp: rx_seq_def)

lemma rx_alt_set: "t \<in> set (rx_alt a b s) \<longleftrightarrow> t \<in> set (a s) \<or> t \<in> set (b s)"
  by (auto simp: rx_alt_def)

lemma rx_opt_set: "t \<in> set (rx_opt a s) \<longleftrightarrow> t \<in> set (a s) \<or> t = s"
  by (auto simp: rx_opt_def)

lemma rx_rep_first:
  assumes "t \<in> set (rx_rep (Suc lo) hi a s)"
  shows "\<exists>u\<in>set (a s). t \<in> set (rx_rep lo (hi - 1) a u)"
  using assms by (cases hi) auto

lemma rx_plus_first:
  assumes "t \<in> set (rx_plus a s)"
  shows "\<exists>u\<in>set (a s). t \<in> set (rx_rep 0 (length s) a u)"
  using assms rx_rep_first [of t 0 "Suc (length s)" a s] by (simp add: rx_plus_def)

lemma re_match_set: "re_match m s \<longleftrightarrow> (\<exists>t. t \<in> set (m s))"
  by (cases "m s") (auto simp: re_match_def)

lemma host_label_first:
  assumes "t \<in> set (host_label uc s)"
  shows "\<exists>h tl. s = h # tl \<and> alnum_i uc h"
  using assms by (auto simp: host_label_def rx_seq_set rx_one_set)

lemma host_domain_first:
  assumes "t \<in> set (host_domain uc s)"
  shows "\<exists>h tl. s = h # tl \<and> alnum_i uc h"
proof -
  from assms obtain u where "u \<in> set (rx_plus (host_label uc) s)"
    by (auto simp: host_domain_def rx_seq_set)
  from rx_plus_first [OF this] obtain w where "w \<in> set (host_label uc s)"
    by blast
  then show ?thesis by (rule host_label_first)
qed

lemma host_ipv4_first:
  assumes "t \<in> set (host_ipv4 uc s)"
  shows "\<exists>h tl. s = h # tl \<and> re_digit uc h"
proof -
  from assms obtain u where "u \<in> set (rx_rep 1 3 (rx_one (re_digit uc)) s)"
    unfolding host_ipv4_def rx_seq_set by blast
  then have "u \<in> set (rx_rep (Suc 0) 3 (rx_one (re_digit uc)) s)" by simp
  from rx_rep_first [OF this] show ?thesis
    by (auto simp: rx_one_set)
qed

lemma localhost_first:
  assumes "t \<in> set (word_i uc (ascii ''localhost'') s)"
  shows "\<exists>h tl. s = h # tl \<and> lit_i uc 108 h"
  using assms by (auto simp: ascii_def rx_seq_set rx_one_set)

lemma host_first:
  assumes "t \<in> set (rx_alt (host_domain uc) (rx_alt (word_i uc (ascii ''localhost'')) (host_ipv4 uc)) s)"
  shows "\<exists>h tl. s = h # tl \<and> host_start uc h"
  using assms host_domain_first [of t uc s] localhost_first [of t uc s] host_ipv4_first [of t uc s]
  by (auto simp: rx_alt_set host_start_def)

lemma url_pattern_shape:
  assumes "re_match (url_pattern uc) s"
  shows "\<exists>c1 c2 c3 c4 sfx h tl.
           s = [c1, c2, c3, c4] @ sfx @ [58, 47, 47] @ h # tl
           \<and> lit_i uc 104 c1 \<and> lit_i uc 116 c2 \<and> lit_i uc 116 c3 \<and> lit_i uc 112 c4
           \<and> (sfx = [] \<or> (\<exists>c5. sfx = [c5] \<and> lit_i uc 115 c5))
           \<and> host_start uc h"
proof -
  let ?host = "rx_alt (host_domain uc) (rx_alt (word_i uc (ascii ''localhost'')) (host_ipv4 uc))"
  from assms obtain t0 where "t0 \<in> set (url_pattern uc s)"
    by (auto simp: re_match_set)
  then obtain u1 u2 u3 u4 u5 u6 where
    a1: "u1 \<in> set (word_i uc (ascii ''http'') s)" and
    a2: "u2 \<in> set (rx_opt (rx_one (lit_i uc 115)) u1)" and
    a3: "u3 \<in> set (rx_one (lit 58) u2)" and
    a4: "u4 \<in> set (rx_one (lit 47) u3)" and
    a5: "u5 \<in> set (rx_one (lit 47) u4)" and
    a6: "u6 \<in> set (?host u5)"
    unfolding url_pattern_def rx_seq_set by blast
  from a1 obtain c1 c2 c3 c4 where
    s: "s = [c1, c2, c3, c4] @ u1" and
    l: "lit_i uc 104 c1" "lit_i uc 116 c2" "lit_i uc 116 c3" "lit_i uc 112 c4"
    by (auto simp: ascii_def rx_seq_set rx_one_set)
  from a2 obtain sfx where
    u1: "u1 = sfx @ u2" and sfx: "sfx = [] \<or> (\<exists>c5. sfx = [c5] \<and> lit_i uc 115 c5)"
    by (auto simp: rx_opt_set rx_one_set)
  from a3 a4 a5 have u2: "u2 = [58, 47, 47] @ u5"
    by (auto simp: rx_one_set lit_def)
  from host_first [OF a6] obtain h tl where u5: "u5 = h # tl" and h: "host_start uc h"
    by blast
  from s u1 u2 u5 have "s = [c1, c2, c3, c4] @ sfx @ [58, 47, 47] @ h # tl" by simp
  with l sfx h show ?thesis by blast
qed


lemma lit_i_above:
  assumes "lit_i uc a c" and "97 \<le> a"
  shows "64 < c"
  using assms by (auto simp: lit_i_def to_lower_def ascii_upper_def split: if_splits)

lemma scheme_char_ascii: "scheme_char c \<Longrightarrow> c < 128"
  by (auto simp: scheme_char_def ascii_lower_def ascii_upper_def ascii_digit_def)

lemma urlsplit_scheme:
  assumes "urlsplit uc s = Some (scheme, netloc)"
  shows "scheme = fst (split_scheme
           (filter (\<lambda>c. c \<noteq> 9 \<and> c \<noteq> 13 \<and> c \<noteq> 10) (dropWhile (\<lambda>c. c \<le> 32) s)))"
  using assms by (auto simp: urlsplit_def Let_def split: prod.splits if_splits)

lemma split_scheme_prefix:
  assumes "\<forall>c\<in>set pre. c \<noteq> 58"
    and "fst (split_scheme (pre @ 58 # rest)) \<noteq> []"
  shows "fst (split_scheme (pre @ 58 # rest)) = map to_lower pre \<and> list_all scheme_char pre"
proof -
  from assms(1) have "takeWhile (\<lambda>c. c \<noteq> 58) (pre @ 58 # rest) = pre"
    by (simp add: takeWhile_append2)
  with assms(2) show ?thesis
    by (auto simp: split_scheme_def Let_def split: if_splits)
qed

lemma lit_i_all_above:
  assumes "list_all2 (lit_i uc) as cs" and "\<forall>a\<in>set as. 97 \<le> a"
  shows "\<forall>c\<in>set cs. 64 < c"
  using assms by (induction rule: list_all2_induct) (auto dest: lit_i_above)

lemma lit_i_all_lower:
  assumes "list_all2 (lit_i uc) as cs" and "list_all (\<lambda>c. c < 128) cs"
  shows "map to_lower cs = as"
  using assms by (induction rule: list_all2_induct) (auto simp: lit_i_def)

text \<open>
  Every value that \<open>validate_url\<close> accepts is a string that starts with \<open>http\<close> or
  \<open>https\<close> in ASCII letters of either case, then \<open>://\<close>, then a first character of a
  host: a value with another scheme, with no scheme, or with nothing after \<open>://\<close> is
  rejected.
\<close>

lemma validate_url_shape:
  assumes "validate_url uc v"
  shows "\<exists>s sch h tl. v = PStr s \<and> s = sch @ [58, 47, 47] @ h # tl
           \<and> list_all (\<lambda>c. c < 128) sch
           \<and> (map to_lower sch = ascii ''http'' \<or> map to_lower sch = ascii ''https'')
           \<and> host_start uc h"
proof -
  let ?f = "\<lambda>c::nat. c \<noteq> 9 \<and> c \<noteq> 13 \<and> c \<noteq> 10"
  from assms obtain s scheme netloc where
    v: "v = PStr s" and m: "re_match (url_pattern uc) s" and
    sp: "urlsplit uc s = Some (scheme, netloc)" and
    sch: "scheme = ascii ''http'' \<or> scheme = ascii ''https''"
    by (auto simp: validate_url_def split: pyval.splits if_splits option.splits)
  from url_pattern_shape [OF m] obtain c1 c2 c3 c4 sfx h tl where
    s0: "s = [c1, c2, c3, c4] @ sfx @ [58, 47, 47] @ h # tl" and
    l: "lit_i uc 104 c1" "lit_i uc 116 c2" "lit_i uc 116 c3" "lit_i uc 112 c4" and
    sfx: "sfx = [] \<or> (\<exists>c5. sfx = [c5] \<and> lit_i uc 115 c5)" and
    h: "host_start uc h"
    by blast
  define pre where "pre = [c1, c2, c3, c4] @ sfx"
  define rest where "rest = filter ?f (47 # 47 # h # tl)"
  have s: "s = pre @ [58, 47, 47] @ h # tl"
    by (simp add: pre_def s0)
  have len: "length pre = 4 \<or> length pre = 5"
    using sfx by (auto simp: pre_def)
  have lits: "list_all2 (lit_i uc) (take (length pre) (ascii ''https'')) pre"
    using l sfx by (auto simp: pre_def ascii_def)
  have "\<forall>a\<in>set (take (length pre) (ascii ''https'')). 97 \<le> a"
    using len by (auto simp: ascii_def)
  from lit_i_all_above [OF lits this] have big: "\<forall>c\<in>set pre. 64 < c" .
  from len have ne: "pre \<noteq> []" by auto
  then have "hd s = hd pre" "hd pre \<in> set pre" by (simp_all add: s)
  with big have "\<not> hd s \<le> 32" by fastforce
  then have d: "dropWhile (\<lambda>c. c \<le> 32) s = s"
    by (simp add: dropWhile_eq_self_iff)
  have "filter ?f pre = pre"
    using big by (intro filter_True) fastforce
  then have f: "filter ?f s = pre @ 58 # rest"
    by (simp add: s rest_def)
  from urlsplit_scheme [OF sp] d f
  have scheme: "scheme = fst (split_scheme (pre @ 58 # rest))" by simp
  from sch have "scheme \<noteq> []" by (auto simp: ascii_def)
  then have ne2: "fst (split_scheme (pre @ 58 # rest)) \<noteq> []" by (simp add: scheme)
  have "\<forall>c\<in>set pre. c \<noteq> 58"
    using big by fastforce
  from split_scheme_prefix [OF this ne2]
  have ok: "list_all scheme_char pre" by simp
  then have asc: "list_all (\<lambda>c. c < 128) pre"
    by (auto simp: list_all_iff dest: scheme_char_ascii)
  from lit_i_all_lower [OF lits asc] len
  have "map to_lower pre = ascii ''http'' \<or> map to_lower pre = ascii ''https''"
    by (auto simp: ascii_def)
  with v s asc h show ?thesis by blast
qed


section \<open>Validator: URLs\<close>

text \<open>
  C8 says that \<open>validate_url\<close> accepts only a scheme \<open>http\<close> or \<open>https\<close>, \<open>://\<close>, a
  host, an optional port and an optional path or query. The code accepts more: \<open>$\<close>
  also matches before a line feed that ends the string, so \<open>http://example.com\<close>
  followed by a line feed is accepted, whatever the Unicode tables are.
\<close>

theorem validate_url_trailing_newline:
  "validate_url uc (PStr (ascii ''http://example.com'' @ [10])) = True"
  by code_simp

text \<open>The same string without the line feed is accepted, and with a space instead it is not.\<close>

lemma validate_url_examples:
  "validate_url uc (PStr (ascii ''http://example.com'')) = True"
  "validate_url uc (PStr (ascii ''http://example.com'' @ [32])) = False"
  "validate_url uc (PStr (ascii ''https://192.168.1.1:8080/path'')) = True"
  "validate_url uc (PStr (ascii ''http://localhost:3000'')) = True"
  "validate_url uc (PStr (ascii ''ftp://example.com'')) = False"
  "validate_url uc (PStr (ascii ''javascript:alert(1)'')) = False"
  "validate_url uc (PStr (ascii ''file:///etc/passwd'')) = False"
  "validate_url uc (PStr (ascii ''http://'')) = False"
  "validate_url uc (PStr []) = False"
  "validate_url uc PNone = False"
  by code_simp+

section \<open>Validator: short codes\<close>

text \<open>
  C9. \<open>is_valid_short_code\<close> holds of a candidate only if it is a string of at least 3
  characters, all of them alphanumeric in the sense of \<open>str.isalnum\<close> (on ASCII: the
  62 letters and digits, so no punctuation and no whitespace); every shorter string and
  every string with a character that is not alphanumeric is rejected.
\<close>

theorem is_valid_short_code_alnum:
  "(is_valid_short_code uc v \<longleftrightarrow>
      (\<exists>s. v = PStr s \<and> 3 \<le> length s \<and> list_all (isalnum_char uc) s))
   \<and> (\<forall>c<128. isalnum_char uc c \<longleftrightarrow> c \<in> set (ascii_letters @ digits))
   \<and> (\<forall>s. length s < 3 \<longrightarrow> \<not> is_valid_short_code uc (PStr s))
   \<and> (\<forall>s. (\<exists>c\<in>set s. \<not> isalnum_char uc c) \<longrightarrow> \<not> is_valid_short_code uc (PStr s))"
proof (intro conjI allI impI)
  show "is_valid_short_code uc v \<longleftrightarrow>
      (\<exists>s. v = PStr s \<and> 3 \<le> length s \<and> list_all (isalnum_char uc) s)"
    by (cases v) (auto simp: is_valid_short_code_def isalnum_def)
next
  fix c :: nat assume "c < 128"
  with alphabet_members [of c]
  show "isalnum_char uc c \<longleftrightarrow> c \<in> set (ascii_letters @ digits)"
    by (simp add: isalnum_char_def del: set_append)
next
  fix s :: str assume "length s < 3"
  then show "\<not> is_valid_short_code uc (PStr s)"
    by (simp add: is_valid_short_code_def)
next
  fix s assume "\<exists>c\<in>set s. \<not> isalnum_char uc c"
  then show "\<not> is_valid_short_code uc (PStr s)"
    by (auto simp: is_valid_short_code_def isalnum_def list_all_iff)
qed

theorem is_valid_short_code_alnum_witness:
  "is_valid_short_code sample_unicode (PStr (ascii ''abc''))
   \<and> is_valid_short_code sample_unicode (PStr [233, 233, 233])
   \<and> isalnum_char sample_unicode 97 \<and> \<not> isalnum_char sample_unicode 33
   \<and> \<not> isalnum_char sample_unicode 32
   \<and> length (ascii ''ab'') < 3 \<and> \<not> is_valid_short_code sample_unicode (PStr (ascii ''ab''))
   \<and> (\<exists>c\<in>set (ascii ''abc!@#''). \<not> isalnum_char sample_unicode c)
   \<and> \<not> is_valid_short_code sample_unicode (PStr (ascii ''abc!@#''))"
proof -
  note t = is_valid_short_code_alnum [where uc = sample_unicode]
  have a: "is_valid_short_code sample_unicode (PStr (ascii ''abc''))"
    using t [of "PStr (ascii ''abc'')"]
    by (simp add: ascii_def isalnum_char_def ascii_lower_def)
  have a': "is_valid_short_code sample_unicode (PStr [233, 233, 233])"
    using t [of "PStr [233, 233, 233]"]
    by (simp add: isalnum_char_def sample_unicode_def)
  have b: "isalnum_char sample_unicode 97 \<and> \<not> isalnum_char sample_unicode 33
      \<and> \<not> isalnum_char sample_unicode 32"
    using t [of PNone] by (simp add: ascii_letters_def digits_def ascii_def)
  have c: "length (ascii ''ab'') < 3" by (simp add: ascii_def)
  with t [of PNone] have d: "\<not> is_valid_short_code sample_unicode (PStr (ascii ''ab''))"
    by blast
  from b have e: "\<exists>c\<in>set (ascii ''abc!@#''). \<not> isalnum_char sample_unicode c"
    by (simp add: ascii_def)
  with t [of PNone] have f: "\<not> is_valid_short_code sample_unicode (PStr (ascii ''abc!@#''))"
    by blast
  from a a' b c d e f show ?thesis by blast
qed

end
